theory Spec2Isabelle
  imports Main
begin

section \<open>Document trees\<close>

text \<open>
  The tool \<^verbatim>\<open>.tools/update-mod.py\<close> parses every XML file below an input folder with
  \<^verbatim>\<open>xml.etree.ElementTree\<close>, cleans the tree in \<^verbatim>\<open>clean_xml\<close> and writes the result
  when \<^verbatim>\<open>clean_xml\<close> returns a string.

  An element has a tag, a dictionary of attributes and an ordered list of children. The
  dictionary is an association list in insertion order with one entry for each name, as a
  parsed document has it. Text and tail of an element are never read by \<^verbatim>\<open>clean_xml\<close>
  and are left out. Every element of a parsed tree is a child of one parent only, so the
  in-place updates of the source are modelled by functions that return the updated tree.

  Strings are the UTF-8 bytes of the Python strings.
\<close>

type_synonym attrs = "(string \<times> string) list"

datatype elem = Elem (tag: string) (attrib: attrs) (kids: "elem list")

text \<open>\<^verbatim>\<open>element.get(key)\<close>: the value, or \<^verbatim>\<open>None\<close> when the key is absent.\<close>

definition get :: "elem \<Rightarrow> string \<Rightarrow> string option" where
  "get e k = map_of (attrib e) k"

text \<open>\<^verbatim>\<open>element.set(key, value)\<close>: a dictionary assignment; a new key goes last.\<close>

fun dict_set :: "attrs \<Rightarrow> string \<Rightarrow> string \<Rightarrow> attrs" where
  "dict_set [] k v = [(k, v)]"
| "dict_set ((k', v') # rest) k v =
     (if k' = k then (k, v) # rest else (k', v') # dict_set rest k v)"

text \<open>Python's truth value of \<^verbatim>\<open>element.get(key)\<close>: \<^verbatim>\<open>None\<close> and \<^verbatim>\<open>""\<close> are false.\<close>

definition truthy :: "string option \<Rightarrow> bool" where
  "truthy v = (case v of None \<Rightarrow> False | Some s \<Rightarrow> s \<noteq> [])"

text \<open>\<^verbatim>\<open>x or ""\<close>\<close>

definition or_empty :: "string option \<Rightarrow> string" where
  "or_empty v = (case v of None \<Rightarrow> [] | Some s \<Rightarrow> if s = [] then [] else s)"


section \<open>The marker test\<close>

text \<open>
  \<^verbatim>\<open>"blood" in (prop.get("actor") or "").lower()\<close>. \<^verbatim>\<open>str.lower\<close> maps the letters
  \<^verbatim>\<open>A\<close> to \<^verbatim>\<open>Z\<close> to \<^verbatim>\<open>a\<close> to \<^verbatim>\<open>z\<close>; no character outside ASCII is lowered to one of
  the letters of the marker, so the bytes of the other characters are left as they are.
\<close>

definition lower_chr :: "char \<Rightarrow> char" where
  "lower_chr c =
     (let n = (of_char c :: nat) in if 65 \<le> n \<and> n \<le> 90 then char_of (n + 32) else c)"

definition lower :: "string \<Rightarrow> string" where
  "lower s = map lower_chr s"

fun starts_with :: "string \<Rightarrow> string \<Rightarrow> bool" where
  "starts_with [] s = True"
| "starts_with (p # ps) [] = False"
| "starts_with (p # ps) (c # cs) = (p = c \<and> starts_with ps cs)"

text \<open>\<^verbatim>\<open>sub in s\<close> on strings.\<close>

fun contains :: "string \<Rightarrow> string \<Rightarrow> bool" where
  "contains sub [] = (sub = [])"
| "contains sub (c # cs) = (starts_with sub (c # cs) \<or> contains sub cs)"

definition mentions_blood :: "elem \<Rightarrow> bool" where
  "mentions_blood prop = contains ''blood'' (lower (or_empty (get prop ''actor'')))"


section \<open>The path steps of \<^verbatim>\<open>findall\<close>\<close>

text \<open>
  \<^verbatim>\<open>Element.iter()\<close> lists an element and everything below it in document order.
\<close>

fun iter :: "elem \<Rightarrow> elem list" where
  "iter (Elem t a cs) = Elem t a cs # concat (map iter cs)"

text \<open>
  A path is run on the list \<^verbatim>\<open>[root]\<close>, one step after the other. The step \<^verbatim>\<open>//tag\<close>
  yields, for each element of the list, the elements of \<^verbatim>\<open>elem.iter(tag)\<close> other than
  the element itself; the step \<^verbatim>\<open>/tag\<close> yields its children with that tag.
\<close>

definition descendant_step :: "string \<Rightarrow> elem list \<Rightarrow> elem list" where
  "descendant_step t result = concat (map (\<lambda>elem. filter (\<lambda>e. tag e = t) (tl (iter elem))) result)"

definition child_step :: "string \<Rightarrow> elem list \<Rightarrow> elem list" where
  "child_step t result = concat (map (\<lambda>elem. filter (\<lambda>e. tag e = t) (kids elem)) result)"

text \<open>\<^verbatim>\<open>root.findall(".//variant/props/prop")\<close>, line 29.\<close>

definition findall_variant_props_prop :: "elem \<Rightarrow> elem list" where
  "findall_variant_props_prop root =
     child_step ''prop'' (child_step ''props'' (descendant_step ''variant'' [root]))"

text \<open>\<^verbatim>\<open>root.findall(".//props/prop")\<close>, line 36.\<close>

definition findall_props_prop :: "elem \<Rightarrow> elem list" where
  "findall_props_prop root = child_step ''prop'' (descendant_step ''props'' [root])"

text \<open>Lines 28 to 39: the two scans and their disjunction.\<close>

definition has_blood :: "elem \<Rightarrow> bool" where
  "has_blood root =
     (let has_blood = list_ex mentions_blood (findall_variant_props_prop root)
      in has_blood \<or> list_ex mentions_blood (findall_props_prop root))"


section \<open>Removing the marked children of props elements\<close>

text \<open>
  Lines 46 to 54. \<^verbatim>\<open>root.findall(".//props")\<close> lists every props element below the
  root before the loop starts. The loop replaces the children of each by those whose actor
  does not mention the marker. An element dropped from its parent this way is still in the
  list and is processed too, but it is no longer part of the tree. So in the tree that
  remains, every element below the root with the tag \<^verbatim>\<open>props\<close> has lost its marked
  children, whatever their tag, and \<open>strip_props\<close> is that effect on one subtree.

  \<^verbatim>\<open>props.find("..")\<close> runs the path on \<^verbatim>\<open>props\<close> itself. The parent step looks its
  argument up in a map from child to parent built over \<^verbatim>\<open>props.iter()\<close>, in which
  \<^verbatim>\<open>props\<close> is nobody's child, so the result is \<^verbatim>\<open>None\<close>: the branch of lines 52 to 54
  is never taken, an emptied props element stays where it is and \<^verbatim>\<open>modified\<close> keeps its
  value.
\<close>

fun strip_props :: "elem \<Rightarrow> elem" where
  "strip_props (Elem t a cs) =
     Elem t a
       (if t = ''props'' then map strip_props (filter (\<lambda>prop. \<not> mentions_blood prop) cs)
        else map strip_props cs)"

definition find_parent :: "elem \<Rightarrow> elem option" where
  "find_parent props = None"

definition remove_blood_props :: "elem \<Rightarrow> bool \<Rightarrow> elem \<times> bool" where
  "remove_blood_props root modified =
     (let root' = Elem (tag root) (attrib root) (map strip_props (kids root));
          emptied = filter (\<lambda>props. kids props = []) (descendant_step ''props'' [root'])
      in (root', modified \<or> list_ex (\<lambda>props. find_parent props \<noteq> None) emptied))"


section \<open>Defaulting the frequency\<close>

text \<open>
  Lines 57 to 61: every variant element below the root that has no frequency gets the
  frequency \<^verbatim>\<open>"0"\<close>, and \<^verbatim>\<open>modified\<close> is set when there is one.
\<close>

fun default_frequency :: "elem \<Rightarrow> elem" where
  "default_frequency (Elem t a cs) =
     Elem t (if t = ''variant'' \<and> map_of a ''frequency'' = None
             then dict_set a ''frequency'' ''0'' else a)
       (map default_frequency cs)"

definition ensure_frequency :: "elem \<Rightarrow> bool \<Rightarrow> elem \<times> bool" where
  "ensure_frequency root modified =
     (Elem (tag root) (attrib root) (map default_frequency (kids root)),
      modified \<or> list_ex (\<lambda>variant. get variant ''frequency'' = None)
                    (descendant_step ''variant'' [root]))"


section \<open>Removing empty elements\<close>

text \<open>
  Lines 63 to 107. \<open>remove_empty_elements\<close> returns the element with its children
  pruned and whether it removed anything (the assignments to \<^verbatim>\<open>modified\<close>).
  \<open>visit_children\<close> is the loop over the children; the children collected in
  \<^verbatim>\<open>to_remove\<close> are the ones it leaves out.
\<close>

definition empty_variant :: "elem \<Rightarrow> bool" where
  "empty_variant child =
     (kids child = [] \<and> \<not> truthy (get child ''file'') \<and> get child ''frequency'' = Some ''0'')"

definition useless_group :: "elem \<Rightarrow> bool" where
  "useless_group child =
     (case kids child of
        [variant] \<Rightarrow>
          tag variant = ''variant'' \<and> kids variant = [] \<and> \<not> truthy (get variant ''file'')
          \<and> get variant ''frequency'' \<in> {Some ''0'', Some ''100''}
      | _ \<Rightarrow> False)"

fun remove_empty_elements :: "elem \<Rightarrow> elem \<times> bool"
  and visit_children :: "elem list \<Rightarrow> elem list \<times> bool" where
  "remove_empty_elements (Elem t a cs) =
     (case visit_children cs of (cs', removed) \<Rightarrow> (Elem t a cs', removed))"
| "visit_children [] = ([], False)"
| "visit_children (child # rest) =
     (let (child', to_remove, m) =
        (if tag child \<in> {''props'', ''animations'', ''textures''} then
           (child, kids child = [], False)
         else if tag child = ''variant'' then
           (case remove_empty_elements child of (c, m) \<Rightarrow> (c, empty_variant c, m))
         else if tag child = ''group'' then
           (case remove_empty_elements child of
              (c, m) \<Rightarrow> (c, kids c = [] \<or> useless_group c, m))
         else (child, False, False));
        (rest', m') = visit_children rest
      in (if to_remove then rest' else child' # rest', to_remove \<or> m \<or> m'))"


section \<open>The whole of \<^verbatim>\<open>clean_xml\<close>\<close>

text \<open>
  \<open>clean_root\<close> is the body of \<^verbatim>\<open>clean_xml\<close> after the parse. It returns the tree as
  it is in memory at the end, and the tree handed to \<^verbatim>\<open>ET.tostring\<close> when a string is
  returned. \<^verbatim>\<open>clean_and_copy_xml_files\<close> writes a file exactly when \<^verbatim>\<open>clean_xml\<close>
  returns a string, which is never empty.
\<close>

definition clean_root :: "elem \<Rightarrow> elem \<times> elem option" where
  "clean_root root =
     (if \<not> has_blood root then (root, None)
      else
        let (root1, modified1) = remove_blood_props root False;
            (root2, modified2) = ensure_frequency root1 modified1;
            (root3, removed) = remove_empty_elements root2;
            modified3 = (modified2 \<or> removed)
        in (root3, if modified3 then Some root3 else None))"

text \<open>\<^verbatim>\<open>ET.parse\<close> either raises \<^verbatim>\<open>ParseError\<close> or gives a tree.\<close>

datatype parsed = ParseError | Tree elem

definition clean_xml :: "parsed \<Rightarrow> elem option" where
  "clean_xml p = (case p of ParseError \<Rightarrow> None | Tree root \<Rightarrow> snd (clean_root root))"


section \<open>Vocabulary of the properties\<close>

text \<open>
  \<open>below e\<close> lists the elements strictly below \<open>e\<close> in document order: what the step
  \<^verbatim>\<open>.//\<close> ranges over. \<open>struct_nodes e\<close> lists the elements whose children the pruner
  looks at when it is called on \<open>e\<close>: \<open>e\<close> itself and, from there on, variant and group
  children only.
\<close>

definition below :: "elem \<Rightarrow> elem list" where
  "below e = concat (map iter (kids e))"

fun struct_nodes :: "elem \<Rightarrow> elem list" where
  "struct_nodes (Elem t a cs) =
     Elem t a cs # concat (map struct_nodes (filter (\<lambda>c. tag c \<in> {''variant'', ''group''}) cs))"

text \<open>
  One round of the loop in \<^verbatim>\<open>remove_empty_elements\<close>, read off the child alone: the
  child as the recursion leaves it, and whether it is put into \<^verbatim>\<open>to_remove\<close>.
\<close>

definition after_recursion :: "elem \<Rightarrow> elem" where
  "after_recursion child =
     (if tag child \<in> {''variant'', ''group''} then fst (remove_empty_elements child) else child)"

definition in_to_remove :: "elem \<Rightarrow> bool" where
  "in_to_remove child =
     (if tag child \<in> {''props'', ''animations'', ''textures''} then kids child = []
      else if tag child = ''variant'' then empty_variant (after_recursion child)
      else if tag child = ''group'' then
        kids (after_recursion child) = [] \<or> useless_group (after_recursion child)
      else False)"

text \<open>The trees after the first and the second stage.\<close>

definition stripped :: "elem \<Rightarrow> elem" where
  "stripped root = Elem (tag root) (attrib root) (map strip_props (kids root))"

definition defaulted :: "elem \<Rightarrow> elem" where
  "defaulted root = Elem (tag root) (attrib root) (map default_frequency (kids root))"

text \<open>
  \<open>thinned R old new\<close>: \<open>new\<close> is \<open>old\<close> with whole subtrees deleted. The elements that
  are kept have their tag, stay in their order below their parent, and their attributes
  are related by \<open>R\<close>. \<open>frequency_defaulted\<close> allows the one change of attributes that
  \<^verbatim>\<open>clean_xml\<close> makes: a variant without a frequency gets \<^verbatim>\<open>frequency="0"\<close> as its
  last attribute.
\<close>

inductive thinned :: "(string \<Rightarrow> attrs \<Rightarrow> attrs \<Rightarrow> bool) \<Rightarrow> elem \<Rightarrow> elem \<Rightarrow> bool"
  and thinned_list :: "(string \<Rightarrow> attrs \<Rightarrow> attrs \<Rightarrow> bool) \<Rightarrow> elem list \<Rightarrow> elem list \<Rightarrow> bool"
  for R :: "string \<Rightarrow> attrs \<Rightarrow> attrs \<Rightarrow> bool" where
  node: "R t a a' \<Longrightarrow> thinned_list R cs cs' \<Longrightarrow> thinned R (Elem t a cs) (Elem t a' cs')"
| none_left: "thinned_list R [] []"
| deleted: "thinned_list R cs cs' \<Longrightarrow> thinned_list R (c # cs) cs'"
| survivor: "thinned R c c' \<Longrightarrow> thinned_list R cs cs' \<Longrightarrow> thinned_list R (c # cs) (c' # cs')"

code_pred thinned .

definition frequency_defaulted :: "string \<Rightarrow> attrs \<Rightarrow> attrs \<Rightarrow> bool" where
  "frequency_defaulted t a a' =
     (a' = a \<or> t = ''variant'' \<and> map_of a ''frequency'' = None \<and> a' = a @ [(''frequency'', ''0'')])"

section \<open>Example documents\<close>

text \<open>Three prop elements: two with a marked actor, one without.\<close>

definition blood_prop :: elem where
  "blood_prop = Elem ''prop'' [(''actor'', ''props/units/Blood_01.xml''), (''attachpoint'', ''root'')] []"

definition helmet_prop :: elem where
  "helmet_prop = Elem ''prop'' [(''actor'', ''props/units/helmet.xml''), (''attachpoint'', ''helmet'')] []"

definition gore_prop :: elem where
  "gore_prop = Elem ''prop'' [(''actor'', ''Gore_blood'')] []"

text \<open>
  A variant that has a frequency and holds a marked and an unmarked prop, and the same
  document without the marked prop.
\<close>

definition doc_unwritten :: elem where
  "doc_unwritten =
     Elem ''actor'' [(''version'', ''1'')]
       [Elem ''group'' []
         [Elem ''variant'' [(''frequency'', ''100''), (''name'', ''Base'')]
           [Elem ''props'' [] [blood_prop, helmet_prop]]]]"

definition doc_unwritten_after :: elem where
  "doc_unwritten_after =
     Elem ''actor'' [(''version'', ''1'')]
       [Elem ''group'' []
         [Elem ''variant'' [(''frequency'', ''100''), (''name'', ''Base'')]
           [Elem ''props'' [] [helmet_prop]]]]"

text \<open>The same props in a variant without a frequency, and the document after cleaning.\<close>

definition doc_written :: elem where
  "doc_written =
     Elem ''actor'' [(''version'', ''1'')]
       [Elem ''group'' []
         [Elem ''variant'' [(''name'', ''Base'')]
           [Elem ''mesh'' [] [], Elem ''props'' [] [blood_prop, helmet_prop]]]]"

definition variant_written :: elem where
  "variant_written =
     Elem ''variant'' [(''name'', ''Base''), (''frequency'', ''0'')]
       [Elem ''mesh'' [] [], Elem ''props'' [] [helmet_prop]]"

definition out_written :: elem where
  "out_written = Elem ''actor'' [(''version'', ''1'')] [Elem ''group'' [] [variant_written]]"

text \<open>
  A marked prop directly below a variant, alone and beside a props element with another
  marked prop.
\<close>

definition doc_direct_prop :: elem where
  "doc_direct_prop =
     Elem ''actor'' [] [Elem ''group'' [] [Elem ''variant'' [] [gore_prop]]]"

definition doc_mixed :: elem where
  "doc_mixed =
     Elem ''actor'' []
       [Elem ''group'' []
         [Elem ''variant'' [] [gore_prop, Elem ''props'' [] [blood_prop]]]]"

definition out_mixed :: elem where
  "out_mixed =
     Elem ''actor'' []
       [Elem ''group'' [] [Elem ''variant'' [(''frequency'', ''0'')] [gore_prop]]]"

text \<open>An empty textures element below an element that is neither a variant nor a group.\<close>

definition doc_wrapped :: elem where
  "doc_wrapped =
     Elem ''actor'' []
       [Elem ''group'' [] [Elem ''variant'' [] [Elem ''props'' [] [blood_prop]]],
        Elem ''decal'' [] [Elem ''textures'' [] []]]"

definition out_wrapped :: elem where
  "out_wrapped = Elem ''actor'' [] [Elem ''decal'' [] [Elem ''textures'' [] []]]"

text \<open>A document whose root is a variant.\<close>

definition doc_variant_root :: elem where
  "doc_variant_root = Elem ''variant'' [] [Elem ''props'' [] [blood_prop]]"

text \<open>A document without a marked prop, with an empty group.\<close>

definition doc_plain :: elem where
  "doc_plain =
     Elem ''actor'' []
       [Elem ''group'' [] [Elem ''variant'' [] [Elem ''props'' [] [helmet_prop]]],
        Elem ''group'' [] []]"

text \<open>Childless variants.\<close>

definition full_variant :: elem where
  "full_variant = Elem ''variant'' [(''frequency'', ''100'')] []"

definition zero_variant :: elem where
  "zero_variant = Elem ''variant'' [(''frequency'', ''0'')] []"

definition blank_file_variant :: elem where
  "blank_file_variant = Elem ''variant'' [(''file'', ''''), (''frequency'', ''0'')] []"

section \<open>Facts about the stages\<close>

subsection \<open>The pruner, child by child\<close>

lemma tag_pruned [simp]: "tag (fst (remove_empty_elements e)) = tag e"
  by (cases e) (simp split: prod.splits)

lemma attrib_pruned [simp]: "attrib (fst (remove_empty_elements e)) = attrib e"
  by (cases e) (simp split: prod.splits)

lemma kids_pruned: "kids (fst (remove_empty_elements e)) = fst (visit_children (kids e))"
  by (cases e) (simp split: prod.splits)

lemma visit_children_Cons:
  "fst (visit_children (child # rest)) =
     (if in_to_remove child then fst (visit_children rest)
      else after_recursion child # fst (visit_children rest))"
  by (simp add: in_to_remove_def after_recursion_def split: prod.splits)

lemma visit_children_filter:
  "fst (visit_children cs) = map after_recursion (filter (\<lambda>c. \<not> in_to_remove c) cs)"
  by (induction cs) (simp_all add: visit_children_Cons del: visit_children.simps(2))

lemma visit_children_append:
  "fst (visit_children (xs @ ys)) = fst (visit_children xs) @ fst (visit_children ys)"
  by (simp add: visit_children_filter)

lemma pruned_Elem:
  "fst (remove_empty_elements (Elem t a cs)) =
     Elem t a (map after_recursion (filter (\<lambda>c. \<not> in_to_remove c) cs))"
  using visit_children_filter [of cs] by (cases "visit_children cs") simp

subsection \<open>Thinning\<close>

lemma thinned_list_map_filter:
  "(\<And>c. c \<in> set cs \<Longrightarrow> thinned R c (f c)) \<Longrightarrow> thinned_list R cs (map f (filter P cs))"
  by (induction cs) (auto intro: thinned_thinned_list.intros)

lemma thinned_list_map:
  "(\<And>c. c \<in> set cs \<Longrightarrow> thinned R c (f c)) \<Longrightarrow> thinned_list R cs (map f cs)"
  using thinned_list_map_filter [of cs R f "\<lambda>_. True"] by simp

lemma thinned_refl: "(\<And>t a. R t a a) \<Longrightarrow> thinned R e e"
proof (induction e)
  case (Elem t a cs)
  have "thinned_list R cs (map (\<lambda>c. c) cs)"
    by (rule thinned_list_map) (simp add: Elem)
  then show ?case
    by (simp add: Elem.prems node)
qed

lemma thinned_strip_props: "thinned (\<lambda>t. (=)) e (strip_props e)"
proof (induction e)
  case (Elem t a cs)
  have "thinned_list (\<lambda>t. (=)) cs (map strip_props (filter P cs))" for P
    by (rule thinned_list_map_filter) (rule Elem)
  moreover have "thinned_list (\<lambda>t. (=)) cs (map strip_props cs)"
    by (rule thinned_list_map) (rule Elem)
  ultimately show ?case
    by (simp add: node)
qed

lemma dict_set_absent: "map_of a k = None \<Longrightarrow> dict_set a k v = a @ [(k, v)]"
  by (induction a) (auto split: if_splits)

lemma thinned_default_frequency: "thinned frequency_defaulted e (default_frequency e)"
proof (induction e)
  case (Elem t a cs)
  have "thinned_list frequency_defaulted cs (map default_frequency cs)"
    by (rule thinned_list_map) (rule Elem)
  moreover have "frequency_defaulted t a
      (if t = ''variant'' \<and> map_of a ''frequency'' = None
       then dict_set a ''frequency'' ''0'' else a)"
    by (simp add: frequency_defaulted_def dict_set_absent)
  ultimately show ?case
    unfolding default_frequency.simps by (intro node)
qed

lemma thinned_pruned: "thinned (\<lambda>t. (=)) e (fst (remove_empty_elements e))"
proof (induction e)
  case (Elem t a cs)
  have "thinned (\<lambda>t. (=)) c (after_recursion c)" if "c \<in> set cs" for c
    using that Elem by (simp add: after_recursion_def thinned_refl)
  then have "thinned_list (\<lambda>t. (=)) cs (map after_recursion (filter (\<lambda>c. \<not> in_to_remove c) cs))"
    by (rule thinned_list_map_filter)
  then show ?case
    unfolding pruned_Elem by (simp add: node)
qed

inductive_cases thinned_ElemE: "thinned R (Elem t a cs) c"

inductive_cases thinned_list_NilE: "thinned_list R [] cs"

inductive_cases thinned_list_ConsE: "thinned_list R (b # bs) cs"

lemma thinned_trans_aux:
  "thinned R a b \<Longrightarrow> (\<And>c. thinned S b c \<Longrightarrow> thinned (\<lambda>t x z. \<exists>y. R t x y \<and> S t y z) a c)"
  "thinned_list R as bs \<Longrightarrow>
     (\<And>cs. thinned_list S bs cs \<Longrightarrow> thinned_list (\<lambda>t x z. \<exists>y. R t x y \<and> S t y z) as cs)"
proof (induction rule: thinned_thinned_list.inducts)
  case (node t a a' cs cs')
  from node show ?case
    by (auto elim!: thinned_ElemE intro!: thinned_thinned_list.node)
next
  case none_left
  from none_left.prems show ?case
    by (rule thinned_list_NilE) (auto intro: thinned_thinned_list.none_left)
next
  case (deleted cs cs' c)
  then show ?case
    by (auto intro: thinned_thinned_list.deleted)
next
  case (survivor c c' cs cs')
  from survivor.prems show ?case
    by (rule thinned_list_ConsE)
      (auto intro: thinned_thinned_list.deleted thinned_thinned_list.survivor survivor.IH)
qed

lemma thinned_mono:
  "thinned R a b \<Longrightarrow> (\<And>t x y. R t x y \<Longrightarrow> S t x y) \<Longrightarrow> thinned S a b"
  "thinned_list R as bs \<Longrightarrow> (\<And>t x y. R t x y \<Longrightarrow> S t x y) \<Longrightarrow> thinned_list S as bs"
  by (induction rule: thinned_thinned_list.inducts) (auto intro: thinned_thinned_list.intros)

lemma thinned_trans:
  assumes "thinned R a b" and "thinned S b c"
    and "\<And>t x y z. R t x y \<Longrightarrow> S t y z \<Longrightarrow> T t x z"
  shows "thinned T a c"
  by (rule thinned_mono(1) [OF thinned_trans_aux(1) [OF assms(1,2)]]) (auto intro: assms(3))

lemma thinned_list_member_aux:
  "thinned R e e' \<Longrightarrow> True"
  "thinned_list R cs cs' \<Longrightarrow> \<forall>c'\<in>set cs'. \<exists>c\<in>set cs. thinned R c c'"
  by (induction rule: thinned_thinned_list.inducts) auto

lemma thinned_list_member:
  "thinned_list R cs cs' \<Longrightarrow> c' \<in> set cs' \<Longrightarrow> \<exists>c\<in>set cs. thinned R c c'"
  using thinned_list_member_aux(2) by blast

lemma thinned_fields:
  "thinned R d d' \<Longrightarrow>
     tag d' = tag d \<and> R (tag d) (attrib d) (attrib d') \<and> thinned_list R (kids d) (kids d')"
  by (cases d) (auto elim: thinned_ElemE)

lemma thinned_iter_aux:
  "thinned R e e' \<Longrightarrow> \<forall>d'\<in>set (iter e'). \<exists>d\<in>set (iter e). thinned R d d'"
  "thinned_list R cs cs' \<Longrightarrow>
     \<forall>c'\<in>set cs'. \<forall>d'\<in>set (iter c'). \<exists>c\<in>set cs. \<exists>d\<in>set (iter c). thinned R d d'"
proof (induction rule: thinned_thinned_list.inducts)
  case (node t a a' cs cs')
  then show ?case
    by (auto intro: thinned_thinned_list.node)
next
  case none_left
  show ?case by simp
next
  case (deleted cs cs' c)
  then show ?case by (meson list.set_intros(2))
next
  case (survivor c c' cs cs')
  then show ?case by (metis list.set_intros(1,2) set_ConsD)
qed

lemma thinned_below:
  assumes "thinned R e e'" and "d' \<in> set (below e')"
  shows "\<exists>d\<in>set (below e). thinned R d d'"
proof -
  from assms(1) have "thinned_list R (kids e) (kids e')"
    by (cases e) (auto elim: thinned_ElemE)
  from thinned_iter_aux(2) [OF this] assms(2) show ?thesis
    by (auto simp: below_def)
qed

subsection \<open>Paths\<close>

lemma iter_self: "e \<in> set (iter e)"
  by (cases e) simp

lemma tl_iter: "tl (iter e) = below e"
  by (cases e) (simp add: below_def)

lemma set_iter: "set (iter e) = insert e (set (below e))"
  by (cases e) (simp add: below_def)

lemma kids_below: "c \<in> set (kids e) \<Longrightarrow> c \<in> set (below e)"
  using iter_self by (auto simp: below_def)

lemma below_kids: "d \<in> set (below e) \<Longrightarrow> c \<in> set (kids d) \<Longrightarrow> c \<in> set (below e)"
proof (induction e)
  case (Elem t a cs)
  from Elem.prems(1) obtain c0 where c0: "c0 \<in> set cs" "d \<in> set (iter c0)"
    by (auto simp: below_def)
  then have "d = c0 \<or> d \<in> set (below c0)"
    by (simp add: set_iter)
  then have "c \<in> set (below c0)"
    using Elem.IH [OF c0(1)] Elem.prems(2) kids_below by blast
  then have "c \<in> set (iter c0)"
    by (simp add: set_iter)
  with c0(1) show ?case
    by (auto simp: below_def)
qed

lemma descendant_step_root: "descendant_step t [root] = filter (\<lambda>e. tag e = t) (below root)"
  by (simp add: descendant_step_def tl_iter)

lemma set_child_step:
  "set (child_step t es) = {c. \<exists>e\<in>set es. c \<in> set (kids e) \<and> tag c = t}"
  by (auto simp: child_step_def)

lemma set_findall_props_prop:
  "set (findall_props_prop r) =
     {c. \<exists>p\<in>set (below r). tag p = ''props'' \<and> c \<in> set (kids p) \<and> tag c = ''prop''}"
  by (auto simp: findall_props_prop_def set_child_step descendant_step_root)

lemma set_findall_variant_props_prop:
  "set (findall_variant_props_prop r) =
     {c. \<exists>v\<in>set (below r). tag v = ''variant'' \<and>
           (\<exists>p\<in>set (kids v). tag p = ''props'' \<and> c \<in> set (kids p) \<and> tag c = ''prop'')}"
  by (auto simp: findall_variant_props_prop_def set_child_step descendant_step_root)

lemma findall_subset: "set (findall_variant_props_prop r) \<subseteq> set (findall_props_prop r)"
  unfolding set_findall_props_prop set_findall_variant_props_prop
  using below_kids by blast

lemma has_blood_second_scan: "has_blood r = list_ex mentions_blood (findall_props_prop r)"
  using findall_subset [of r] by (auto simp: has_blood_def list_ex_iff)

lemma has_blood_iff:
  "has_blood r \<longleftrightarrow>
     (\<exists>p\<in>set (below r). tag p = ''props'' \<and>
        (\<exists>c\<in>set (kids p). tag c = ''prop'' \<and> mentions_blood c))"
  unfolding has_blood_second_scan list_ex_iff set_findall_props_prop by blast

subsection \<open>What each stage establishes\<close>

lemma mentions_blood_cong:
  "map_of (attrib x) ''actor'' = map_of (attrib y) ''actor'' \<Longrightarrow>
     mentions_blood x = mentions_blood y"
  by (simp add: mentions_blood_def get_def)

lemma attrib_strip_props [simp]: "attrib (strip_props e) = attrib e"
  by (cases e) simp

lemma tag_strip_props [simp]: "tag (strip_props e) = tag e"
  by (cases e) simp

lemma strip_props_clean:
  "p \<in> set (iter (strip_props e)) \<Longrightarrow> tag p = ''props'' \<Longrightarrow> c \<in> set (kids p) \<Longrightarrow>
     \<not> mentions_blood c"
proof (induction e)
  case (Elem t a cs)
  let ?cs' = "if t = ''props'' then map strip_props (filter (\<lambda>prop. \<not> mentions_blood prop) cs)
              else map strip_props cs"
  from Elem.prems(1) consider "p = Elem t a ?cs'" | c0 where "c0 \<in> set cs" "p \<in> set (iter (strip_props c0))"
    by (auto split: if_splits)
  then show ?case
  proof cases
    case 1
    with Elem.prems(2,3) obtain c0 where "c = strip_props c0" "\<not> mentions_blood c0"
      by auto
    then show ?thesis
      using mentions_blood_cong [of c c0] by simp
  next
    case 2
    then show ?thesis
      using Elem.IH Elem.prems(2,3) by blast
  qed
qed

lemma default_frequency_present:
  "v \<in> set (iter (default_frequency e)) \<Longrightarrow> tag v = ''variant'' \<Longrightarrow>
     get v ''frequency'' \<noteq> None"
proof (induction e)
  case (Elem t a cs)
  have "map_of (dict_set a ''frequency'' ''0'') ''frequency'' \<noteq> None"
    by (induction a) auto
  with Elem show ?case
    by (auto simp: get_def)
qed

lemma iter_default_frequency:
  "map (\<lambda>e. (tag e, attrib e)) (iter (default_frequency e)) =
   map (\<lambda>e. (tag e, if tag e = ''variant'' \<and> get e ''frequency'' = None
                     then attrib e @ [(''frequency'', ''0'')] else attrib e)) (iter e)"
proof (induction e)
  case (Elem t a cs)
  then show ?case
    by (simp add: map_concat get_def dict_set_absent cong: map_cong)
qed

lemma pruned_filled:
  "n \<in> set (struct_nodes (fst (remove_empty_elements e))) \<Longrightarrow> c \<in> set (kids n) \<Longrightarrow>
     tag c \<in> {''props'', ''animations'', ''textures''} \<Longrightarrow> kids c \<noteq> []"
proof (induction e arbitrary: n)
  case (Elem t a cs)
  let ?cs' = "map after_recursion (filter (\<lambda>c. \<not> in_to_remove c) cs)"
  have tag_after: "tag (after_recursion x) = tag x" for x
    by (simp add: after_recursion_def)
  from Elem.prems(1) consider "n = Elem t a ?cs'"
    | c0 where "c0 \<in> set cs" "tag c0 \<in> {''variant'', ''group''}"
        "n \<in> set (struct_nodes (after_recursion c0))"
    unfolding pruned_Elem by (auto simp: tag_after)
  then show ?case
  proof cases
    case 1
    with Elem.prems(2) obtain c0 where c0: "c = after_recursion c0" "\<not> in_to_remove c0"
      by auto
    with Elem.prems(3) show ?thesis
      by (auto simp: after_recursion_def in_to_remove_def split: if_splits)
  next
    case 2
    then have "n \<in> set (struct_nodes (fst (remove_empty_elements c0)))"
      by (simp add: after_recursion_def)
    from Elem.IH [OF 2(1) this Elem.prems(2,3)] show ?thesis .
  qed
qed

subsection \<open>The stages together\<close>

lemma remove_blood_props_eq:
  "remove_blood_props root m = (Elem (tag root) (attrib root) (map strip_props (kids root)), m)"
  by (simp add: remove_blood_props_def find_parent_def list_ex_iff Let_def)

lemma clean_root_tree:
  "fst (clean_root root) =
     (if has_blood root then fst (remove_empty_elements (defaulted (stripped root))) else root)"
  by (simp add: clean_root_def remove_blood_props_eq ensure_frequency_def defaulted_def
      stripped_def Let_def split: prod.splits)

lemma clean_xml_Some:
  "clean_xml (Tree root) = Some out \<Longrightarrow>
     has_blood root \<and> out = fst (remove_empty_elements (defaulted (stripped root)))"
  by (auto simp: clean_xml_def clean_root_def remove_blood_props_eq ensure_frequency_def
      defaulted_def stripped_def Let_def split: prod.splits if_splits)

lemma thinned_stripped: "thinned (\<lambda>t. (=)) root (stripped root)"
proof (cases root)
  case (Elem t a cs)
  have "thinned_list (\<lambda>t. (=)) cs (map strip_props cs)"
    by (rule thinned_list_map) (rule thinned_strip_props)
  then show ?thesis
    by (simp add: Elem stripped_def node)
qed

lemma thinned_defaulted: "thinned frequency_defaulted root (defaulted root)"
proof (cases root)
  case (Elem t a cs)
  have "thinned_list frequency_defaulted cs (map default_frequency cs)"
    by (rule thinned_list_map) (rule thinned_default_frequency)
  moreover have "frequency_defaulted t a a"
    by (simp add: frequency_defaulted_def)
  ultimately show ?thesis
    by (simp add: Elem defaulted_def node)
qed

lemma thinned_after_strip:
  "thinned frequency_defaulted x (fst (remove_empty_elements (defaulted x)))"
  by (rule thinned_trans [OF thinned_defaulted thinned_pruned]) simp

lemma thinned_cleaned:
  "thinned frequency_defaulted root (fst (remove_empty_elements (defaulted (stripped root))))"
  by (rule thinned_trans [OF thinned_stripped thinned_after_strip]) simp

lemma stripped_clean:
  "p \<in> set (below (stripped root)) \<Longrightarrow> tag p = ''props'' \<Longrightarrow> c \<in> set (kids p) \<Longrightarrow>
     \<not> mentions_blood c"
  using strip_props_clean by (auto simp: stripped_def below_def)

lemma frequency_defaulted_actor:
  "frequency_defaulted t a a' \<Longrightarrow> map_of a' ''actor'' = map_of a ''actor''"
  by (auto simp: frequency_defaulted_def map_of_append map_add_def split: option.splits)

lemma thinned_keeps_clean:
  assumes thin: "thinned frequency_defaulted x y"
    and clean: "\<And>p c. p \<in> set (below x) \<Longrightarrow> tag p = ''props'' \<Longrightarrow> c \<in> set (kids p) \<Longrightarrow>
      \<not> mentions_blood c"
    and p: "p \<in> set (below y)" "tag p = ''props''" and c: "c \<in> set (kids p)"
  shows "\<not> mentions_blood c"
proof -
  from thinned_below [OF thin p(1)] obtain p0
    where p0: "p0 \<in> set (below x)" "thinned frequency_defaulted p0 p" by blast
  from thinned_fields [OF p0(2)] p(2)
  have tag0: "tag p0 = ''props''" and ks: "thinned_list frequency_defaulted (kids p0) (kids p)"
    by simp_all
  from thinned_list_member [OF ks c] obtain c0
    where c0: "c0 \<in> set (kids p0)" "thinned frequency_defaulted c0 c" by blast
  from thinned_fields [OF c0(2)] have "map_of (attrib c) ''actor'' = map_of (attrib c0) ''actor''"
    by (auto dest: frequency_defaulted_actor)
  then have "mentions_blood c = mentions_blood c0"
    by (rule mentions_blood_cong)
  with clean [OF p0(1) tag0 c0(1)] show ?thesis by simp
qed

lemma cleaned_clean:
  assumes "p \<in> set (below (fst (remove_empty_elements (defaulted (stripped root)))))"
    and "tag p = ''props''" and "c \<in> set (kids p)"
  shows "\<not> mentions_blood c"
  by (rule thinned_keeps_clean [OF thinned_after_strip _ assms]) (rule stripped_clean)

lemma defaulted_present:
  "v \<in> set (below (defaulted x)) \<Longrightarrow> tag v = ''variant'' \<Longrightarrow> get v ''frequency'' \<noteq> None"
  using default_frequency_present by (auto simp: defaulted_def below_def)

lemma cleaned_present:
  assumes "v \<in> set (below (fst (remove_empty_elements (defaulted x))))" and "tag v = ''variant''"
  shows "get v ''frequency'' \<noteq> None"
proof -
  from thinned_below [OF thinned_pruned assms(1)] obtain v0
    where v0: "v0 \<in> set (below (defaulted x))" "thinned (\<lambda>t. (=)) v0 v" by blast
  from thinned_fields [OF v0(2)] assms(2) have "tag v0 = ''variant''" "attrib v = attrib v0"
    by simp_all
  with defaulted_present [OF v0(1)] show ?thesis
    by (simp add: get_def)
qed

section \<open>Properties of \<^verbatim>\<open>clean_xml\<close>\<close>

text \<open>
  C1. The claim is that a document in which the scan finds a marked prop is always
  serialized and written. The source returns the string only when \<^verbatim>\<open>modified\<close> is set,
  and dropping a marked prop does not set it. On \<open>doc_unwritten\<close> the scan finds the
  marked prop, the prop is dropped from the tree in memory, no frequency is missing and
  the pruner removes nothing: \<^verbatim>\<open>clean_xml\<close> returns \<^verbatim>\<open>None\<close> and no file is written.
\<close>

theorem blood_found_but_nothing_written:
  "has_blood doc_unwritten \<and> clean_root doc_unwritten = (doc_unwritten_after, None)
   \<and> clean_xml (Tree doc_unwritten) = None"
  by code_simp

text \<open>
  C2, amended. In every tree that \<^verbatim>\<open>clean_xml\<close> returns, no child of a props element
  below the root has an actor that mentions the marker. Marked props that are not children
  of such a props element are not removed.
\<close>

theorem output_props_hold_no_blood:
  "clean_xml (Tree root) = Some out \<Longrightarrow> p \<in> set (below out) \<Longrightarrow> tag p = ''props'' \<Longrightarrow>
     c \<in> set (kids p) \<Longrightarrow> \<not> mentions_blood c"
  using cleaned_clean clean_xml_Some by blast

text \<open>C2, at \<open>doc_written\<close>: the props element of the output and the prop it keeps.\<close>

theorem output_props_hold_no_blood_witness:
  "clean_xml (Tree doc_written) = Some out_written
   \<and> Elem ''props'' [] [helmet_prop] \<in> set (below out_written)
   \<and> tag (Elem ''props'' [] [helmet_prop]) = ''props''
   \<and> helmet_prop \<in> set (kids (Elem ''props'' [] [helmet_prop]))
   \<and> \<not> mentions_blood helmet_prop"
proof -
  have 1: "clean_xml (Tree doc_written) = Some out_written" by code_simp
  have 2: "Elem ''props'' [] [helmet_prop] \<in> set (below out_written)" by code_simp
  have 3: "tag (Elem ''props'' [] [helmet_prop]) = ''props''" by simp
  have 4: "helmet_prop \<in> set (kids (Elem ''props'' [] [helmet_prop]))" by simp
  from output_props_hold_no_blood [OF 1 2 3 4] 1 2 3 4 show ?thesis by blast
qed

text \<open>
  C2 as stated fails: the output for \<open>doc_mixed\<close> still holds the marked prop that lies
  directly below the variant.
\<close>

theorem direct_prop_survives_counterexample:
  "clean_xml (Tree doc_mixed) = Some out_mixed \<and> gore_prop \<in> set (below out_mixed)
   \<and> tag gore_prop = ''prop'' \<and> mentions_blood gore_prop"
  by code_simp

text \<open>
  C3, amended. The scan reports a document exactly when some props element below the root
  has a child with the tag \<^verbatim>\<open>prop\<close> whose actor mentions the marker. A prop directly below
  a variant is not looked at.
\<close>

theorem detection_scan_scope:
  "has_blood root \<longleftrightarrow>
     (\<exists>p\<in>set (below root). tag p = ''props'' \<and>
        (\<exists>c\<in>set (kids p). tag c = ''prop'' \<and> mentions_blood c))"
  by (rule has_blood_iff)

text \<open>C3, at \<open>doc_written\<close>: the marked prop is a child of a props element and is found.\<close>

theorem detection_scan_scope_witness:
  "has_blood doc_written \<and> Elem ''props'' [] [blood_prop, helmet_prop] \<in> set (below doc_written)
   \<and> blood_prop \<in> set (kids (Elem ''props'' [] [blood_prop, helmet_prop]))
   \<and> tag blood_prop = ''prop'' \<and> mentions_blood blood_prop"
proof -
  have 1: "Elem ''props'' [] [blood_prop, helmet_prop] \<in> set (below doc_written)" by code_simp
  have 2: "blood_prop \<in> set (kids (Elem ''props'' [] [blood_prop, helmet_prop]))" by simp
  have 3: "tag blood_prop = ''prop''" by code_simp
  have 4: "mentions_blood blood_prop" by code_simp
  have 5: "tag (Elem ''props'' [] [blood_prop, helmet_prop]) = ''props''" by simp
  from 1 2 3 4 5 have "has_blood doc_written"
    unfolding detection_scan_scope [of doc_written] by blast
  with 1 2 3 4 show ?thesis by blast
qed

text \<open>
  C3 as stated fails: the marked prop of \<open>doc_direct_prop\<close> lies directly below a
  variant, the scan does not find it and nothing is returned.
\<close>

theorem direct_prop_undetected_counterexample:
  "\<not> has_blood doc_direct_prop \<and> clean_xml (Tree doc_direct_prop) = None
   \<and> gore_prop \<in> set (below doc_direct_prop) \<and> tag gore_prop = ''prop''
   \<and> mentions_blood gore_prop"
  by code_simp

text \<open>
  C4. When no element with the tag \<^verbatim>\<open>prop\<close> anywhere in the tree has an actor that
  mentions the marker, \<^verbatim>\<open>clean_xml\<close> returns \<^verbatim>\<open>None\<close> and the tree in memory is the
  tree that was parsed, whatever else the document lacks.
\<close>

theorem no_blood_no_output:
  assumes "\<And>e. e \<in> set (iter root) \<Longrightarrow> tag e = ''prop'' \<Longrightarrow> \<not> mentions_blood e"
  shows "clean_root root = (root, None) \<and> clean_xml (Tree root) = None"
proof -
  have "\<not> has_blood root"
    unfolding has_blood_iff using assms below_kids [of _ root] by (auto simp: set_iter)
  then show ?thesis
    by (simp add: clean_root_def clean_xml_def)
qed

text \<open>
  C4, at \<open>doc_plain\<close>, which has no marked prop but a variant without a frequency and an
  empty group.
\<close>

theorem no_blood_no_output_witness:
  "clean_root doc_plain = (doc_plain, None) \<and> clean_xml (Tree doc_plain) = None
   \<and> filter (\<lambda>e. tag e = ''prop'' \<and> mentions_blood e) (iter doc_plain) = []"
proof -
  have 1: "filter (\<lambda>e. tag e = ''prop'' \<and> mentions_blood e) (iter doc_plain) = []"
    by code_simp
  then have "\<And>e. e \<in> set (iter doc_plain) \<Longrightarrow> tag e = ''prop'' \<Longrightarrow> \<not> mentions_blood e"
    by (simp add: filter_empty_conv)
  from no_blood_no_output [OF this] 1 show ?thesis by simp
qed

text \<open>
  C5, amended. In every tree that \<^verbatim>\<open>clean_xml\<close> returns, a props, animations or
  textures element that is a child of the root, or of a variant or group reached from the
  root through variants and groups only, has at least one child. The pruner does not enter
  other elements.
\<close>

theorem visited_containers_filled:
  "clean_xml (Tree root) = Some out \<Longrightarrow> n \<in> set (struct_nodes out) \<Longrightarrow> c \<in> set (kids n) \<Longrightarrow>
     tag c \<in> {''props'', ''animations'', ''textures''} \<Longrightarrow> kids c \<noteq> []"
  using pruned_filled clean_xml_Some by blast

text \<open>C5, at \<open>doc_written\<close>: the props element of the surviving variant is not empty.\<close>

theorem visited_containers_filled_witness:
  "clean_xml (Tree doc_written) = Some out_written
   \<and> variant_written \<in> set (struct_nodes out_written)
   \<and> Elem ''props'' [] [helmet_prop] \<in> set (kids variant_written)
   \<and> tag (Elem ''props'' [] [helmet_prop]) \<in> {''props'', ''animations'', ''textures''}
   \<and> kids (Elem ''props'' [] [helmet_prop]) \<noteq> []"
proof -
  have 1: "clean_xml (Tree doc_written) = Some out_written" by code_simp
  have 2: "variant_written \<in> set (struct_nodes out_written)" by code_simp
  have 3: "Elem ''props'' [] [helmet_prop] \<in> set (kids variant_written)" by code_simp
  have 4: "tag (Elem ''props'' [] [helmet_prop]) \<in> {''props'', ''animations'', ''textures''}"
    by simp
  from visited_containers_filled [OF 1 2 3 4] 1 2 3 4 show ?thesis by blast
qed

text \<open>
  C5 as stated fails: the output for \<open>doc_wrapped\<close> holds an empty textures element,
  below an element that the pruner does not enter.
\<close>

theorem empty_container_survives_counterexample:
  "clean_xml (Tree doc_wrapped) = Some out_wrapped
   \<and> Elem ''textures'' [] [] \<in> set (below out_wrapped)
   \<and> kids (Elem ''textures'' [] []) = []"
  by code_simp

text \<open>
  C6, amended. A variant child is removed exactly when, after the recursion, it has no
  children, its file attribute is absent or empty, and its frequency is \<^verbatim>\<open>"0"\<close>; its
  siblings are not affected. A group child whose only remaining child is a childless
  variant with an absent or empty file attribute is removed when the frequency of that
  variant is \<^verbatim>\<open>"0"\<close> or \<^verbatim>\<open>"100"\<close>.
\<close>

theorem variant_and_group_rules:
  "(tag v = ''variant'' \<longrightarrow>
      fst (visit_children (before @ v # after)) =
        fst (visit_children before)
        @ (if kids (fst (remove_empty_elements v)) = []
              \<and> get v ''file'' \<in> {None, Some ''''} \<and> get v ''frequency'' = Some ''0''
           then [] else [fst (remove_empty_elements v)])
        @ fst (visit_children after))
   \<and> (tag g = ''group'' \<and> kids (fst (remove_empty_elements g)) = [w] \<and> tag w = ''variant''
        \<and> kids w = [] \<and> get w ''file'' \<in> {None, Some ''''}
        \<and> get w ''frequency'' \<in> {Some ''0'', Some ''100''} \<longrightarrow>
      fst (visit_children (before @ g # after)) =
        fst (visit_children before) @ fst (visit_children after))"
proof -
  have falsy: "\<not> truthy x \<longleftrightarrow> x \<in> {None, Some ''''}" for x
    by (auto simp: truthy_def split: option.splits)
  have get_pruned: "get (fst (remove_empty_elements x)) k = get x k" for x k
    by (simp add: get_def)
  have "fst (visit_children (before @ v # after)) =
        fst (visit_children before)
        @ (if kids (fst (remove_empty_elements v)) = []
              \<and> get v ''file'' \<in> {None, Some ''''} \<and> get v ''frequency'' = Some ''0''
           then [] else [fst (remove_empty_elements v)])
        @ fst (visit_children after)" if "tag v = ''variant''"
    using that
    by (simp add: visit_children_append visit_children_Cons in_to_remove_def after_recursion_def
        empty_variant_def falsy get_pruned del: visit_children.simps(2))
  moreover have "fst (visit_children (before @ g # after)) =
        fst (visit_children before) @ fst (visit_children after)"
    if "tag g = ''group''" "kids (fst (remove_empty_elements g)) = [w]" "tag w = ''variant''"
      "kids w = []" "get w ''file'' \<in> {None, Some ''''}"
      "get w ''frequency'' \<in> {Some ''0'', Some ''100''}"
  proof -
    from that have "useless_group (fst (remove_empty_elements g))"
      by (simp add: useless_group_def falsy)
    with that(1) have "in_to_remove g"
      by (simp add: in_to_remove_def after_recursion_def)
    then show ?thesis
      by (simp add: visit_children_append visit_children_Cons del: visit_children.simps(2))
  qed
  ultimately show ?thesis by blast
qed

text \<open>
  C6, on two lists of children: a variant with frequency \<^verbatim>\<open>"100"\<close> stays while the one
  with \<^verbatim>\<open>"0"\<close> goes, and a group that holds only the variant with frequency \<^verbatim>\<open>"100"\<close>
  goes.
\<close>

theorem variant_and_group_rules_witness:
  "fst (visit_children [full_variant, zero_variant, Elem ''mesh'' [] []]) =
     [full_variant, Elem ''mesh'' [] []]
   \<and> fst (visit_children [zero_variant, Elem ''group'' [] [full_variant], Elem ''mesh'' [] []]) =
     [Elem ''mesh'' [] []]"
proof -
  have 1: "tag zero_variant = ''variant''" by code_simp
  have 2: "fst (remove_empty_elements zero_variant) = zero_variant" by code_simp
  have 3: "kids zero_variant = []" "get zero_variant ''file'' = None"
    "get zero_variant ''frequency'' = Some ''0''" by code_simp+
  have 4: "fst (visit_children [full_variant]) = [full_variant]"
    "fst (visit_children [Elem ''mesh'' [] []]) = [Elem ''mesh'' [] []]"
    "fst (visit_children [zero_variant]) = []" by code_simp+
  have 5: "tag (Elem ''group'' [] [full_variant]) = ''group''"
    "kids (fst (remove_empty_elements (Elem ''group'' [] [full_variant]))) = [full_variant]"
    "tag full_variant = ''variant''" "kids full_variant = []" "get full_variant ''file'' = None"
    "get full_variant ''frequency'' = Some ''100''" by code_simp+
  from variant_and_group_rules
    [of zero_variant "[full_variant]" "[Elem ''mesh'' [] []]" "Elem ''group'' [] [full_variant]" full_variant]
    1 2 3 4(1,2)
  have a: "fst (visit_children [full_variant, zero_variant, Elem ''mesh'' [] []]) =
     [full_variant, Elem ''mesh'' [] []]"
    by simp
  from variant_and_group_rules
    [of zero_variant "[zero_variant]" "[Elem ''mesh'' [] []]" "Elem ''group'' [] [full_variant]" full_variant]
    5 4(2,3)
  have b: "fst (visit_children [zero_variant, Elem ''group'' [] [full_variant], Elem ''mesh'' [] []]) =
     [Elem ''mesh'' [] []]"
    by simp
  from a b show ?thesis by simp
qed

text \<open>
  C6 as stated fails: a childless variant with frequency \<^verbatim>\<open>"0"\<close> is removed although it
  has a file attribute, when the value of that attribute is the empty string.
\<close>

theorem blank_file_variant_removed_counterexample:
  "remove_empty_elements (Elem ''actor'' [] [blank_file_variant]) = (Elem ''actor'' [] [], True)
   \<and> tag blank_file_variant = ''variant'' \<and> get blank_file_variant ''file'' = Some ''''"
  by code_simp

text \<open>
  C7, amended. The second stage leaves the tags and attributes of the elements below the
  root as they are, except that a variant without a frequency gets \<^verbatim>\<open>frequency="0"\<close>; so
  in every tree that \<^verbatim>\<open>clean_xml\<close> returns, every variant below the root has a
  frequency. The root is not touched by this stage.
\<close>

theorem frequency_below_root:
  "map (\<lambda>e. (tag e, attrib e)) (below (fst (ensure_frequency root m))) =
     map (\<lambda>e. (tag e, if tag e = ''variant'' \<and> get e ''frequency'' = None
                       then attrib e @ [(''frequency'', ''0'')] else attrib e)) (below root)
   \<and> (\<forall>out v. clean_xml (Tree root) = Some out \<and> v \<in> set (below out) \<and> tag v = ''variant''
        \<longrightarrow> get v ''frequency'' \<noteq> None)"
proof -
  have "map (\<lambda>e. (tag e, attrib e)) (concat (map iter (map default_frequency cs))) =
     map (\<lambda>e. (tag e, if tag e = ''variant'' \<and> get e ''frequency'' = None
                       then attrib e @ [(''frequency'', ''0'')] else attrib e))
       (concat (map iter cs))" for cs
    by (induction cs) (simp_all add: iter_default_frequency)
  then have "map (\<lambda>e. (tag e, attrib e)) (below (fst (ensure_frequency root m))) =
     map (\<lambda>e. (tag e, if tag e = ''variant'' \<and> get e ''frequency'' = None
                       then attrib e @ [(''frequency'', ''0'')] else attrib e)) (below root)"
    by (simp add: ensure_frequency_def below_def)
  moreover have "get v ''frequency'' \<noteq> None"
    if "clean_xml (Tree root) = Some out" "v \<in> set (below out)" "tag v = ''variant''" for out v
    using that cleaned_present clean_xml_Some by blast
  ultimately show ?thesis by blast
qed

text \<open>
  C7: the elements below the root of \<open>doc_mixed\<close> after the second stage, and the
  variant in the output for \<open>doc_written\<close>.
\<close>

theorem frequency_below_root_witness:
  "clean_xml (Tree doc_written) = Some out_written \<and> variant_written \<in> set (below out_written)
   \<and> tag variant_written = ''variant'' \<and> get variant_written ''frequency'' = Some ''0''
   \<and> map (\<lambda>e. (tag e, attrib e)) (below (fst (ensure_frequency doc_mixed False))) =
       [(''group'', []), (''variant'', [(''frequency'', ''0'')]), (''prop'', [(''actor'', ''Gore_blood'')]),
        (''props'', []),
        (''prop'', [(''actor'', ''props/units/Blood_01.xml''), (''attachpoint'', ''root'')])]"
proof -
  have 1: "clean_xml (Tree doc_written) = Some out_written" by code_simp
  have 2: "variant_written \<in> set (below out_written)" by code_simp
  have 3: "tag variant_written = ''variant''" by code_simp
  have 4: "get variant_written ''frequency'' = Some ''0''" by code_simp
  have 5: "map (\<lambda>e. (tag e, if tag e = ''variant'' \<and> get e ''frequency'' = None
                       then attrib e @ [(''frequency'', ''0'')] else attrib e)) (below doc_mixed) =
       [(''group'', []), (''variant'', [(''frequency'', ''0'')]), (''prop'', [(''actor'', ''Gore_blood'')]),
        (''props'', []),
        (''prop'', [(''actor'', ''props/units/Blood_01.xml''), (''attachpoint'', ''root'')])]"
    by code_simp
  from frequency_below_root [of doc_mixed False] 1 2 3 4 5 show ?thesis by simp
qed

text \<open>
  C7 as stated fails: the root of \<open>doc_variant_root\<close> is a variant, and it is returned
  without a frequency.
\<close>

theorem root_variant_without_frequency_counterexample:
  "clean_xml (Tree doc_variant_root) = Some (Elem ''variant'' [] [])
   \<and> tag (Elem ''variant'' [] []) = ''variant''
   \<and> get (Elem ''variant'' [] []) ''frequency'' = None"
  by code_simp

text \<open>
  C8. On a tree that an earlier run of \<^verbatim>\<open>clean_xml\<close> returned, the detection scan
  finds no match: neither of the two paths lists an element whose actor mentions the
  marker, \<^verbatim>\<open>has_blood\<close> is false, and so the second run leaves the tree as it is and
  returns \<^verbatim>\<open>None\<close>.
\<close>

theorem second_run_writes_nothing:
  "clean_xml (Tree root) = Some out \<Longrightarrow>
     \<not> has_blood out
     \<and> filter mentions_blood (findall_variant_props_prop out) = []
     \<and> filter mentions_blood (findall_props_prop out) = []
     \<and> clean_root out = (out, None) \<and> clean_xml (Tree out) = None"
proof -
  assume "clean_xml (Tree root) = Some out"
  then have clean: "\<not> has_blood out"
    unfolding has_blood_iff using cleaned_clean clean_xml_Some by blast
  then have "\<not> list_ex mentions_blood (findall_variant_props_prop out)"
    and "\<not> list_ex mentions_blood (findall_props_prop out)"
    by (simp_all add: has_blood_def)
  then have "filter mentions_blood (findall_variant_props_prop out) = []"
    and "filter mentions_blood (findall_props_prop out) = []"
    by (simp_all add: list_ex_iff filter_empty_conv)
  with clean show ?thesis
    by (simp add: clean_xml_def clean_root_def)
qed

text \<open>
  C8, at \<open>doc_written\<close>, where the first run's scan finds a marked prop, and its output,
  where the scan finds none.
\<close>

theorem second_run_writes_nothing_witness:
  "has_blood doc_written \<and> clean_xml (Tree doc_written) = Some out_written
   \<and> \<not> has_blood out_written
   \<and> filter mentions_blood (findall_variant_props_prop out_written) = []
   \<and> filter mentions_blood (findall_props_prop out_written) = []
   \<and> clean_root out_written = (out_written, None) \<and> clean_xml (Tree out_written) = None"
proof -
  have 0: "has_blood doc_written" by code_simp
  have 1: "clean_xml (Tree doc_written) = Some out_written" by code_simp
  from second_run_writes_nothing [OF 1] 0 1 show ?thesis by simp
qed

text \<open>
  C9. The result of the two scans together is the result of the second scan alone, and
  every element listed by the first scan is listed by the second.
\<close>

theorem first_scan_redundant:
  "has_blood root = list_ex mentions_blood (findall_props_prop root)
   \<and> set (findall_variant_props_prop root) \<subseteq> set (findall_props_prop root)"
  using has_blood_second_scan findall_subset by simp

text \<open>C9, at \<open>doc_mixed\<close>, where both scans list the same prop.\<close>

theorem first_scan_redundant_witness:
  "has_blood doc_mixed = list_ex mentions_blood (findall_props_prop doc_mixed)
   \<and> findall_variant_props_prop doc_mixed = [blood_prop]
   \<and> findall_props_prop doc_mixed = [blood_prop]"
proof -
  have 1: "findall_variant_props_prop doc_mixed = [blood_prop]" by code_simp
  have 2: "findall_props_prop doc_mixed = [blood_prop]" by code_simp
  from first_scan_redundant [of doc_mixed] 1 2 show ?thesis by simp
qed

text \<open>
  C10. The tree in memory at the end of \<^verbatim>\<open>clean_xml\<close>, which is the tree returned when
  one is returned, is the parsed tree with whole elements deleted: the elements that are
  kept have their tag, keep their order below their parent, and keep their attributes,
  except that a variant without a frequency may have got \<^verbatim>\<open>frequency="0"\<close>.
\<close>

theorem survivors_keep_order_and_attributes:
  "thinned frequency_defaulted root (fst (clean_root root))
   \<and> (\<forall>out. clean_xml (Tree root) = Some out \<longrightarrow> out = fst (clean_root root))"
proof -
  have "thinned frequency_defaulted root root"
    by (rule thinned_refl) (simp add: frequency_defaulted_def)
  then have "thinned frequency_defaulted root (fst (clean_root root))"
    by (simp add: clean_root_tree thinned_cleaned)
  moreover have "out = fst (clean_root root)" if "clean_xml (Tree root) = Some out" for out
    using clean_xml_Some [OF that] by (simp add: clean_root_tree)
  ultimately show ?thesis by blast
qed

text \<open>C10, at \<open>doc_written\<close> and its output.\<close>

theorem survivors_keep_order_and_attributes_witness:
  "clean_xml (Tree doc_written) = Some out_written \<and> thinned frequency_defaulted doc_written out_written"
proof -
  have 1: "clean_xml (Tree doc_written) = Some out_written" by code_simp
  from survivors_keep_order_and_attributes [of doc_written] 1 show ?thesis by metis
qed

end
